theory Spec2Isabelle
  imports Main
begin

section \<open>The per-packet server: src/server/aesdsocket.c\<close>

text \<open>
  The server of \<^verbatim>\<open>aesdsocket.c\<close> accepts one client at a time; \<^verbatim>\<open>handle_client\<close>
  accumulates what \<^verbatim>\<open>recv\<close> returns in a heap block \<^verbatim>\<open>recvbuf\<close>, writes every
  newline-terminated packet to \<^verbatim>\<open>/var/tmp/aesdsocketdata\<close> and sends the whole file back
  after each packet.

  Bytes are \<^typ>\<open>char\<close> (8 bits). Sizes (\<^verbatim>\<open>size_t\<close>, 64 bits) are \<^typ>\<open>nat\<close>: with
  chunks of at most 512 bytes, every size the function computes is below twice the size of
  the block it holds plus 1024, so no computation wraps on a machine whose blocks are
  smaller than \<open>2 ^ 62\<close> bytes.
\<close>

type_synonym bytes = "char list"

definition newline :: char where
  "newline = CHR 0x0A"

subsection \<open>The world outside the function\<close>

text \<open>
  What \<^verbatim>\<open>handle_client\<close> does to its surroundings is recorded in the order it happens:
  \<open>Fwrite p\<close> is the pair \<^verbatim>\<open>fwrite(recvbuf + start, 1, pktlen, fp); fflush(fp)\<close> called
  with the packet \<open>p\<close>, \<open>Sent s\<close> is one call of \<^verbatim>\<open>send\<close> that put the bytes \<open>s\<close> on
  the socket, the others are the calls of the same name.
\<close>

datatype event =
    Syslog_info string
  | Syslog_err string
  | Perror string
  | Fwrite bytes
  | Sent bytes
  | Fclose_fp2
  | Free_recvbuf
  | Fclose_fp
  | Close_clientfd

text \<open>
  \<open>store\<close> is the content of \<^verbatim>\<open>/var/tmp/aesdsocketdata\<close>, \<open>trace\<close> the events so far and
  \<open>tick\<close> the number of calls made so far whose result the program does not control.
\<close>

record world =
  store :: bytes
  trace :: "event list"
  tick :: nat

text \<open>
  The results of those calls, by the tick at which the call is made:
  whether \<^verbatim>\<open>fopen(DATAFILE, "a")\<close>, \<^verbatim>\<open>malloc\<close>, \<^verbatim>\<open>realloc\<close> and
  \<^verbatim>\<open>fopen(DATAFILE, "r")\<close> succeed; how many of the requested bytes
  \<^verbatim>\<open>fwrite\<close> and \<^verbatim>\<open>fflush\<close> bring into the file; what \<^verbatim>\<open>send\<close> returns
  for a request of \<open>nn\<close> bytes (\<open>None\<close> for \<open>-1\<close>, \<open>Some k\<close> for \<open>k\<close> bytes sent);
  and the content of memory that was allocated and not yet written.
  \<^verbatim>\<open>fread\<close> is taken to return what the file holds.
\<close>

record env =
  fopen_append_ok :: "nat \<Rightarrow> bool"
  malloc_ok :: "nat \<Rightarrow> bool"
  realloc_ok :: "nat \<Rightarrow> bool"
  fwrite_count :: "nat \<Rightarrow> nat \<Rightarrow> nat"
  fopen_read_ok :: "nat \<Rightarrow> bool"
  send_result :: "nat \<Rightarrow> nat \<Rightarrow> nat option"
  junk :: "nat \<Rightarrow> char"

definition emit :: "event list \<Rightarrow> world \<Rightarrow> world" where
  "emit es w = w\<lparr>trace := trace w @ es\<rparr>"

definition bump :: "world \<Rightarrow> world" where
  "bump w = w\<lparr>tick := tick w + 1\<rparr>"

subsection \<open>Appending a packet and sending the file back (lines 195--217)\<close>

text \<open>
  \<^verbatim>\<open>fwrite(recvbuf + start, 1, pktlen, fp); fflush(fp);\<close> The result of neither call
  is looked at. The file is open in append mode, so the bytes that arrive are added at its end.
\<close>

definition fwrite_fflush :: "env \<Rightarrow> bytes \<Rightarrow> world \<Rightarrow> world" where
  "fwrite_fflush env pkt w =
     bump (emit [Fwrite pkt]
       (w\<lparr>store := store w @ take (fwrite_count env (tick w) (length pkt)) pkt\<rparr>))"

text \<open>
  \<^verbatim>\<open>while ((nn = fread(sendbuf, 1, sizeof(sendbuf), fp2)) > 0) {
      if (send(clientfd, sendbuf, nn, 0) < 0) { syslog(LOG_ERR, ...); break; } }\<close>
  The argument \<open>content\<close> is what is left of the file after the position of \<^verbatim>\<open>fp2\<close>.
  A result of \<^verbatim>\<open>send\<close> that is not negative is not looked at either: the loop goes
  on with the next 1024 bytes of the file.
\<close>

function send_file :: "env \<Rightarrow> bytes \<Rightarrow> world \<Rightarrow> world" where
  "send_file env content w =
     (let sendbuf = take 1024 content; nn = length sendbuf in
      if nn > 0 then
        (case send_result env (tick w) nn of
           None \<Rightarrow> emit [Syslog_err ''Failed to send data to client''] (bump w)
         | Some k \<Rightarrow> send_file env (drop 1024 content) (emit [Sent (take k sendbuf)] (bump w)))
      else w)"
  by pat_completeness auto
termination
  by (relation "measure (\<lambda>(env, content, w). length content)") auto

declare send_file.simps [simp del]

text \<open>
  The three calls that every early \<^verbatim>\<open>return\<close> inside the receive loop makes first:
  \<^verbatim>\<open>free(recvbuf); fclose(fp); close(clientfd);\<close>
\<close>

definition release :: "world \<Rightarrow> world" where
  "release w = emit [Free_recvbuf, Fclose_fp, Close_clientfd] w"

text \<open>
  Lines 200--217: open the file for reading, send it, close it. \<open>Inl\<close> is the early
  \<^verbatim>\<open>return\<close> of \<^verbatim>\<open>handle_client\<close>, \<open>Inr\<close> the normal way on.
\<close>

definition reply :: "env \<Rightarrow> world \<Rightarrow> world + world" where
  "reply env w =
     (if fopen_read_ok env (tick w)
      then Inr (emit [Fclose_fp2] (send_file env (store w) (bump w)))
      else Inl (release (emit [Syslog_err ''Failed to open /var/tmp/aesdsocketdata for reading'']
                  (bump w))))"

subsection \<open>The receive buffer\<close>

text \<open>
  The three local variables \<^verbatim>\<open>recvbuf\<close>, \<^verbatim>\<open>bufsize\<close> and \<^verbatim>\<open>datalen\<close>. The list
  \<open>recvbuf\<close> is the whole heap block, one element for each of its bytes.
\<close>

record buf =
  recvbuf :: bytes
  bufsize :: nat
  datalen :: nat

text \<open>
  \<^verbatim>\<open>memcpy(dst + off, src, length src)\<close> and \<^verbatim>\<open>memmove(dst, dst + src, len)\<close> on a
  block. A copy that would leave the block (undefined in C) shows as a result of another
  length than the block.
\<close>

definition memcpy_at :: "bytes \<Rightarrow> nat \<Rightarrow> bytes \<Rightarrow> bytes" where
  "memcpy_at dst off src = take off dst @ src @ drop (off + length src) dst"

definition memmove_front :: "bytes \<Rightarrow> nat \<Rightarrow> nat \<Rightarrow> bytes" where
  "memmove_front dst src len = take len (drop src dst) @ drop len dst"

text \<open>
  \<^verbatim>\<open>while (datalen + (n - temp_offset) >= newsize) newsize *= 2;\<close>
  The loop does not end when \<open>newsize\<close> is 0; that is the value \<open>None\<close>.
\<close>

partial_function (option) newsize_loop :: "nat \<Rightarrow> nat \<Rightarrow> nat option" where
  "newsize_loop need newsize =
     (if need \<ge> newsize then newsize_loop need (newsize * 2) else Some newsize)"

declare newsize_loop.simps [code]

text \<open>
  Lines 167--181. \<open>None\<close>: the function does not return. \<open>Some (Inl w)\<close>: \<^verbatim>\<open>realloc\<close>
  failed and \<^verbatim>\<open>handle_client\<close> has returned. The bytes that \<^verbatim>\<open>realloc\<close> adds to the
  block hold anything.
\<close>

definition resize :: "env \<Rightarrow> nat \<Rightarrow> buf \<Rightarrow> world \<Rightarrow> (world + buf \<times> world) option" where
  "resize env n b w =
     (if datalen b + n \<ge> bufsize b then
        (case newsize_loop (datalen b + n) (bufsize b * 2) of
           None \<Rightarrow> None
         | Some newsize \<Rightarrow>
             if realloc_ok env (tick w)
             then Some (Inr (b\<lparr>recvbuf := recvbuf b @ map (junk env) [bufsize b..<newsize],
                               bufsize := newsize\<rparr>, bump w))
             else Some (Inl (release (emit [Syslog_err ''realloc failed''] (bump w)))))
      else Some (Inr (b, w)))"

subsection \<open>Scanning for packets (lines 190--221)\<close>

text \<open>
  \<^verbatim>\<open>for (size_t i = 0; i < datalen; ++i) if (recvbuf[i] == '\n') { ... start = i + 1; }\<close>
  with the loop variables \<open>i\<close> and \<open>start\<close> as arguments. The result is \<open>Inl\<close> when the
  function has returned inside the loop, else the last value of \<open>start\<close>.
\<close>

function scan :: "env \<Rightarrow> bytes \<Rightarrow> nat \<Rightarrow> nat \<Rightarrow> nat \<Rightarrow> world \<Rightarrow> world + nat \<times> world" where
  "scan env rb dl i start w =
     (if i < dl then
        (if rb ! i = newline then
           (let pktlen = i - start + 1 in
            case reply env (fwrite_fflush env (take pktlen (drop start rb)) w) of
              Inl w' \<Rightarrow> Inl w'
            | Inr w' \<Rightarrow> scan env rb dl (i + 1) (i + 1) w')
         else scan env rb dl (i + 1) start w)
      else Inr (start, w))"
  by pat_completeness auto
termination
  by (relation "measure (\<lambda>(env, rb, dl, i, start, w). dl - i)") auto

declare scan.simps [simp del]

text \<open>
  Lines 223--229: \<^verbatim>\<open>if (start > 0 && start < datalen) { memmove(...); datalen -= start; }
  else if (start == datalen) { datalen = 0; }\<close>
\<close>

definition compact :: "nat \<Rightarrow> buf \<Rightarrow> buf" where
  "compact start b =
     (if start > 0 \<and> start < datalen b
      then b\<lparr>recvbuf := memmove_front (recvbuf b) start (datalen b - start),
             datalen := datalen b - start\<rparr>
      else if start = datalen b then b\<lparr>datalen := 0\<rparr>
      else b)"

subsection \<open>One chunk, one connection, the server loop\<close>

text \<open>
  The body of \<^verbatim>\<open>while (temp_offset < n)\<close> (lines 166--229) for the chunk \<open>temp\<close> that
  \<^verbatim>\<open>recv\<close> returned, of \<open>n = length temp\<close> bytes: make room, copy what is left of the
  chunk behind the pending bytes, scan, compact. The result holds the new value of
  \<open>temp_offset\<close>.
\<close>

definition ingest_body ::
  "env \<Rightarrow> bytes \<Rightarrow> nat \<Rightarrow> buf \<Rightarrow> world \<Rightarrow> (world + nat \<times> buf \<times> world) option" where
  "ingest_body env temp temp_offset b w =
     (let n = length temp in
      case resize env (n - temp_offset) b w of
        None \<Rightarrow> None
      | Some (Inl w') \<Rightarrow> Some (Inl w')
      | Some (Inr (b1, w1)) \<Rightarrow>
          (let copylen = n - temp_offset;
               b2 = b1\<lparr>recvbuf := memcpy_at (recvbuf b1) (datalen b1)
                                    (take copylen (drop temp_offset temp)),
                       datalen := datalen b1 + copylen\<rparr>;
               temp_offset' = temp_offset + copylen
           in case scan env (recvbuf b2) (datalen b2) 0 0 w1 of
                Inl w' \<Rightarrow> Some (Inl w')
              | Inr (start, w2) \<Rightarrow> Some (Inr (temp_offset', compact start b2, w2))))"

text \<open>
  \<^verbatim>\<open>while (temp_offset < n) { ... }\<close>, lines 165--230.
\<close>

function ingest_loop ::
  "env \<Rightarrow> bytes \<Rightarrow> nat \<Rightarrow> buf \<Rightarrow> world \<Rightarrow> (world + buf \<times> world) option" where
  "ingest_loop env temp temp_offset b w =
     (if temp_offset < length temp then
        (case ingest_body env temp temp_offset b w of
           None \<Rightarrow> None
         | Some (Inl w') \<Rightarrow> Some (Inl w')
         | Some (Inr (temp_offset', b', w')) \<Rightarrow> ingest_loop env temp temp_offset' b' w')
      else Some (Inr (b, w)))"
  by pat_completeness auto
termination
  by (relation "measure (\<lambda>(env, temp, temp_offset, b, w). length temp - temp_offset)")
     (auto simp: ingest_body_def Let_def split: option.splits sum.splits prod.splits)

declare ingest_loop.simps [simp del]

text \<open>
  What the receive loop does with one chunk (lines 163--230):
  \<^verbatim>\<open>size_t temp_offset = 0; while (temp_offset < n) { ... }\<close>
\<close>

definition ingest :: "env \<Rightarrow> bytes \<Rightarrow> buf \<Rightarrow> world \<Rightarrow> (world + buf \<times> world) option" where
  "ingest env temp b w = ingest_loop env temp 0 b w"

text \<open>
  \<^verbatim>\<open>while (!exit_requested && (n = recv(clientfd, temp, sizeof(temp), 0)) > 0)\<close>.
  The argument is the list of what the calls of \<^verbatim>\<open>recv\<close> return, each of at most
  \<^verbatim>\<open>sizeof(temp)\<close> = 512 bytes; an empty chunk is a result \<open>n \<le> 0\<close>, and the end of the list
  is that too, or \<^verbatim>\<open>exit_requested\<close> set.
\<close>

fun recv_loop :: "env \<Rightarrow> bytes list \<Rightarrow> buf \<Rightarrow> world \<Rightarrow> (world + buf \<times> world) option" where
  "recv_loop env [] b w = Some (Inr (b, w))"
| "recv_loop env (temp # rest) b w =
     (if length temp > 0 then
        (case ingest env temp b w of
           None \<Rightarrow> None
         | Some (Inl w') \<Rightarrow> Some (Inl w')
         | Some (Inr (b', w')) \<Rightarrow> recv_loop env rest b' w')
      else Some (Inr (b, w)))"

text \<open>
  \<^verbatim>\<open>handle_client\<close>, lines 136--237. \<open>None\<close>: the function does not return.
\<close>

definition handle_client :: "env \<Rightarrow> string \<Rightarrow> bytes list \<Rightarrow> world \<Rightarrow> world option" where
  "handle_client env client_ip chunks w0 =
     (let w1 = emit [Syslog_info (''Accepted connection from '' @ client_ip)] w0 in
      if \<not> fopen_append_ok env (tick w1)
      then Some (emit [Syslog_err ''Failed to open /var/tmp/aesdsocketdata'', Close_clientfd]
                  (bump w1))
      else
        (let w2 = bump w1 in
         if \<not> malloc_ok env (tick w2)
         then Some (emit [Syslog_err ''malloc failed'', Fclose_fp, Close_clientfd] (bump w2))
         else
           (let w3 = bump w2;
                b = \<lparr>recvbuf = map (junk env) [0..<1024], bufsize = 1024, datalen = 0\<rparr>
            in case recv_loop env chunks b w3 of
                 None \<Rightarrow> None
               | Some (Inl w) \<Rightarrow> Some w
               | Some (Inr (b', w)) \<Rightarrow>
                   Some (emit [Syslog_info (''Closed connection from '' @ client_ip)]
                          (release w)))))"

text \<open>
  \<^verbatim>\<open>listen_socket\<close>, lines 247--261, on the list of what the calls of \<^verbatim>\<open>accept\<close>
  return: a failure, or a client with its address and the chunks it will deliver. The end of
  the list is \<^verbatim>\<open>exit_requested\<close> set.
\<close>

datatype accept_result = Accept_failed | Accepted string "bytes list"



section \<open>The other server: src/server/aesdassignment.c\<close>

text \<open>
  \<^verbatim>\<open>aesdassignment.c\<close> is a second server for the same port and file, with the whole
  connection handled in the loop of \<^verbatim>\<open>main\<close>. It keeps no buffer between chunks and
  answers once for each connection. No result of \<^verbatim>\<open>fwrite\<close>, \<^verbatim>\<open>fflush\<close> or
  \<^verbatim>\<open>send\<close> is looked at in this file; the model below is of a run in which these
  calls transfer all their bytes. It uses the same \<open>world\<close> and the same events.
\<close>

text \<open>
  \<^verbatim>\<open>strchr(buffer, '\n')\<close> on the chunk just received, which the code ends with a NUL:
  the search stops at the first NUL byte of the chunk.
\<close>

definition nul :: char where
  "nul = CHR 0x00"

definition strchr_newline :: "bytes \<Rightarrow> bool" where
  "strchr_newline buffer \<longleftrightarrow> newline \<in> set (takeWhile (\<lambda>c. c \<noteq> nul) buffer)"

text \<open>
  Lines 224--234: every chunk goes to the file as it comes; the loop ends with the first
  chunk in which \<^verbatim>\<open>strchr\<close> finds a newline, or when \<^verbatim>\<open>recv\<close> returns nothing.
\<close>

fun main_recv_loop :: "bytes list \<Rightarrow> world \<Rightarrow> bool \<times> world" where
  "main_recv_loop [] w = (False, w)"
| "main_recv_loop (buffer # rest) w =
     (if length buffer > 0 then
        (let w' = emit [Fwrite buffer] (w\<lparr>store := store w @ buffer\<rparr>) in
         if strchr_newline buffer then (True, w') else main_recv_loop rest w')
      else (False, w))"

text \<open>
  \<^verbatim>\<open>fgets(buffer, sizeof(buffer), data_file)\<close> reads up to \<open>n = 1023\<close> bytes and stops
  behind a newline; lines 242--244 send each such piece up to its first NUL
  (\<^verbatim>\<open>strlen(buffer)\<close>) until the file is at its end.
\<close>

fun fgets :: "nat \<Rightarrow> bytes \<Rightarrow> bytes" where
  "fgets n [] = []"
| "fgets n (c # s) =
     (if n = 0 then [] else if c = newline then [c] else c # fgets (n - 1) s)"

function main_send_file :: "bytes \<Rightarrow> world \<Rightarrow> world" where
  "main_send_file content w =
     (let buffer = fgets 1023 content in
      if buffer = [] then w
      else main_send_file (drop (length buffer) content)
             (emit [Sent (takeWhile (\<lambda>c. c \<noteq> nul) buffer)] w))"
  by pat_completeness auto
termination
proof (relation "measure (\<lambda>(content, w). length content)")
  fix content :: bytes and w :: world and buffer :: bytes
  assume "buffer = fgets 1023 content" and "buffer \<noteq> []"
  then have "content \<noteq> []" and "0 < length buffer" by auto
  then show "((drop (length buffer) content, emit [Sent (takeWhile (\<lambda>c. c \<noteq> nul) buffer)] w),
              (content, w)) \<in> measure (\<lambda>(content, w). length content)"
    by simp
qed simp

declare main_send_file.simps [simp del]

text \<open>
  Lines 203--253, after \<^verbatim>\<open>accept\<close> and \<^verbatim>\<open>fopen(DATA_FILE, "a+")\<close> have succeeded.
\<close>

definition main_connection :: "string \<Rightarrow> bytes list \<Rightarrow> world \<Rightarrow> world" where
  "main_connection client_ip chunks w0 =
     (let w1 = emit [Syslog_info (''Accepted connection from '' @ client_ip)] w0;
          (newline_found, w2) = main_recv_loop chunks w1;
          w3 = (if newline_found then main_send_file (store w2) w2 else w2)
      in emit [Fclose_fp, Close_clientfd, Syslog_info (''Closed connection from '' @ client_ip)] w3)"


section \<open>The stream seen as packets\<close>

text \<open>
  A packet is a run of bytes that ends with, and includes, the delimiter. For the bytes \<open>s\<close>
  read after the bytes \<open>cur\<close> of a packet not yet complete, \<open>packets cur s\<close> are the packets
  that \<open>s\<close> completes, in order, and \<open>residue cur s\<close> are the bytes after the last delimiter.
\<close>

fun packets :: "bytes \<Rightarrow> bytes \<Rightarrow> bytes list" where
  "packets cur [] = []"
| "packets cur (c # s) =
     (if c = newline then (cur @ [c]) # packets [] s else packets (cur @ [c]) s)"

fun residue :: "bytes \<Rightarrow> bytes \<Rightarrow> bytes" where
  "residue cur [] = cur"
| "residue cur (c # s) = (if c = newline then residue [] s else residue (cur @ [c]) s)"

text \<open>
  What the loop body of \<open>scan\<close> does with one packet, and with a list of them: append,
  then reply; the first early return ends it.
\<close>

definition emit_packet :: "env \<Rightarrow> bytes \<Rightarrow> world \<Rightarrow> world + world" where
  "emit_packet env pkt w = reply env (fwrite_fflush env pkt w)"

fun emit_packets :: "env \<Rightarrow> bytes list \<Rightarrow> world \<Rightarrow> world + world" where
  "emit_packets env [] w = Inr w"
| "emit_packets env (p # ps) w =
     (case emit_packet env p w of Inl w' \<Rightarrow> Inl w' | Inr w' \<Rightarrow> emit_packets env ps w')"

text \<open>
  The bytes of the block that count: the first \<open>datalen\<close>. A block is in order when it has
  the size \<open>bufsize\<close> says and \<open>datalen\<close> is below it.
\<close>

definition pending :: "buf \<Rightarrow> bytes" where
  "pending b = take (datalen b) (recvbuf b)"

definition buf_ok :: "buf \<Rightarrow> bool" where
  "buf_ok b \<longleftrightarrow> length (recvbuf b) = bufsize b \<and> datalen b < bufsize b"

text \<open>
  The receive loop on the pending bytes and the capacity alone, with the packets taken from
  \<open>packets\<close> and the bytes kept from \<open>residue\<close>. It is shown below to do what the loop on
  the heap block does.
\<close>

definition resize_spec :: "env \<Rightarrow> nat \<Rightarrow> nat \<Rightarrow> nat \<Rightarrow> world \<Rightarrow> (world + nat \<times> world) option" where
  "resize_spec env n len cap w =
     (if len + n \<ge> cap then
        (case newsize_loop (len + n) (cap * 2) of
           None \<Rightarrow> None
         | Some newsize \<Rightarrow>
             if realloc_ok env (tick w) then Some (Inr (newsize, bump w))
             else Some (Inl (release (emit [Syslog_err ''realloc failed''] (bump w)))))
      else Some (Inr (cap, w)))"

definition ingest_spec ::
  "env \<Rightarrow> bytes \<Rightarrow> bytes \<times> nat \<Rightarrow> world \<Rightarrow> (world + (bytes \<times> nat) \<times> world) option" where
  "ingest_spec env temp pc w =
     (case resize_spec env (length temp) (length (fst pc)) (snd pc) w of
        None \<Rightarrow> None
      | Some (Inl w') \<Rightarrow> Some (Inl w')
      | Some (Inr (cap, w1)) \<Rightarrow>
          (case emit_packets env (packets (fst pc) temp) w1 of
             Inl w' \<Rightarrow> Some (Inl w')
           | Inr w2 \<Rightarrow> Some (Inr ((residue (fst pc) temp, cap), w2))))"

definition abs_buf :: "buf \<Rightarrow> bytes \<times> nat" where
  "abs_buf b = (pending b, bufsize b)"

definition abs_result ::
  "(world + buf \<times> world) option \<Rightarrow> (world + (bytes \<times> nat) \<times> world) option" where
  "abs_result r = map_option (map_sum id (\<lambda>(b, w). (abs_buf b, w))) r"

fun recv_loop_spec ::
  "env \<Rightarrow> bytes list \<Rightarrow> bytes \<times> nat \<Rightarrow> world \<Rightarrow> (world + (bytes \<times> nat) \<times> world) option" where
  "recv_loop_spec env [] pc w = Some (Inr (pc, w))"
| "recv_loop_spec env (temp # rest) pc w =
     (if length temp > 0 then
        (case ingest_spec env temp pc w of
           None \<Rightarrow> None
         | Some (Inl w') \<Rightarrow> Some (Inl w')
         | Some (Inr (pc', w')) \<Rightarrow> recv_loop_spec env rest pc' w')
      else Some (Inr (pc, w)))"

definition handle_client_spec :: "env \<Rightarrow> string \<Rightarrow> bytes list \<Rightarrow> world \<Rightarrow> world option" where
  "handle_client_spec env client_ip chunks w0 =
     (let w1 = emit [Syslog_info (''Accepted connection from '' @ client_ip)] w0 in
      if \<not> fopen_append_ok env (tick w1)
      then Some (emit [Syslog_err ''Failed to open /var/tmp/aesdsocketdata'', Close_clientfd]
                  (bump w1))
      else if \<not> malloc_ok env (tick (bump w1))
      then Some (emit [Syslog_err ''malloc failed'', Fclose_fp, Close_clientfd] (bump (bump w1)))
      else
        (case recv_loop_spec env chunks ([], 1024) (bump (bump w1)) of
           None \<Rightarrow> None
         | Some (Inl w) \<Rightarrow> Some w
         | Some (Inr (pc, w)) \<Rightarrow>
             Some (emit [Syslog_info (''Closed connection from '' @ client_ip)] (release w))))"


section \<open>Surroundings for concrete runs\<close>

text \<open>
  \<open>ok_env\<close>: every call succeeds and transfers all it is asked to.
  \<open>fresh\<close>: a server just started, with no data file and nothing done yet.
\<close>

definition ok_env :: env where
  "ok_env = \<lparr>fopen_append_ok = (\<lambda>t. True), malloc_ok = (\<lambda>t. True), realloc_ok = (\<lambda>t. True),
     fwrite_count = (\<lambda>t n. n), fopen_read_ok = (\<lambda>t. True), send_result = (\<lambda>t n. Some n),
     junk = (\<lambda>i. CHR 0x00)\<rparr>"

definition fresh :: world where
  "fresh = \<lparr>store = [], trace = [], tick = 0\<rparr>"

text \<open>
  The same split in the words of the specification: the bytes up to and including the last
  delimiter, and the bytes after it.
\<close>

definition upto_last_newline :: "bytes \<Rightarrow> bytes" where
  "upto_last_newline s = rev (dropWhile (\<lambda>c. c \<noteq> newline) (rev s))"

definition after_last_newline :: "bytes \<Rightarrow> bytes" where
  "after_last_newline s = rev (takeWhile (\<lambda>c. c \<noteq> newline) (rev s))"


section \<open>What a run without failures leaves behind\<close>

text \<open>
  \<open>appended\<close>: the packets handed to \<^verbatim>\<open>fwrite\<close>, in order. \<open>blocks\<close>: a file as
  \<^verbatim>\<open>fread\<close> delivers it, 1024 bytes at a time. \<open>ideal_events st ps\<close>: for each packet of
  \<open>ps\<close> its append, then one send for every block of the file as it is then, starting
  from the file content \<open>st\<close>.
\<close>

fun appended :: "event list \<Rightarrow> bytes list" where
  "appended [] = []"
| "appended (Fwrite p # es) = p # appended es"
| "appended (e # es) = appended es"

function blocks :: "bytes \<Rightarrow> bytes list" where
  "blocks s = (if s = [] then [] else take 1024 s # blocks (drop 1024 s))"
  by pat_completeness auto
termination
  by (relation "measure length") auto

declare blocks.simps [simp del]

fun ideal_events :: "bytes \<Rightarrow> bytes list \<Rightarrow> event list" where
  "ideal_events st [] = []"
| "ideal_events st (p # ps) =
     Fwrite p # map Sent (blocks (st @ p)) @ Fclose_fp2 # ideal_events (st @ p) ps"

text \<open>
  Conditions on the surroundings: the two calls that open a connection in the world \<open>w\<close>
  succeed (\<open>starts\<close>), no call fails
  that makes \<^verbatim>\<open>handle_client\<close> return early (\<open>no_abort\<close>), every write and send
  transfers all its bytes (\<open>io_ok\<close>).
\<close>

definition starts :: "env \<Rightarrow> world \<Rightarrow> bool" where
  "starts env w \<longleftrightarrow> fopen_append_ok env (tick w) \<and> malloc_ok env (tick w + 1)"

definition no_abort :: "env \<Rightarrow> bool" where
  "no_abort env \<longleftrightarrow> (\<forall>t. realloc_ok env t \<and> fopen_read_ok env t)"

definition io_ok :: "env \<Rightarrow> bool" where
  "io_ok env \<longleftrightarrow> (\<forall>t n. fwrite_count env t n = n \<and> send_result env t n = Some n)"


section \<open>The loop on the heap block does what the loop on the pending bytes does\<close>

lemma packets_append: "packets cur (s @ t) = packets cur s @ packets (residue cur s) t"
  by (induction s arbitrary: cur) auto

lemma residue_append: "residue cur (s @ t) = residue (residue cur s) t"
  by (induction s arbitrary: cur) auto

lemma concat_packets_residue: "concat (packets cur s) @ residue cur s = cur @ s"
  by (induction s arbitrary: cur) auto

lemma residue_no_newline: "newline \<notin> set cur \<Longrightarrow> newline \<notin> set (residue cur s)"
  by (induction s arbitrary: cur) auto

lemma packets_no_newline: "newline \<notin> set cur \<Longrightarrow> packets acc cur = []"
  by (induction cur arbitrary: acc) auto

lemma residue_no_newline_eq: "newline \<notin> set cur \<Longrightarrow> residue acc cur = acc @ cur"
  by (induction cur arbitrary: acc) auto

lemma packets_shift: "newline \<notin> set cur \<Longrightarrow> packets [] (cur @ s) = packets cur s"
  by (simp add: packets_append packets_no_newline residue_no_newline_eq)

lemma residue_shift: "newline \<notin> set cur \<Longrightarrow> residue [] (cur @ s) = residue cur s"
  by (simp add: residue_append residue_no_newline_eq)

lemma scan_eq:
  "start \<le> i \<Longrightarrow> i \<le> dl \<Longrightarrow> dl \<le> length rb \<Longrightarrow>
   scan env rb dl i start w =
     (case emit_packets env (packets (take (i - start) (drop start rb)) (take (dl - i) (drop i rb))) w of
        Inl w' \<Rightarrow> Inl w'
      | Inr w' \<Rightarrow> Inr (dl - length (residue (take (i - start) (drop start rb)) (take (dl - i) (drop i rb))), w'))"
proof (induction env rb dl i start w rule: scan.induct)
  case (1 env rb dl i start w)
  show ?case
  proof (cases "i < dl")
    case False
    with 1 show ?thesis by (simp add: scan.simps)
  next
    case True
    with "1.prems" have il: "i < length rb" by simp
    have rest: "take (dl - i) (drop i rb) = rb ! i # take (dl - (i + 1)) (drop (i + 1) rb)"
      using True il by (metis Cons_nth_drop_Suc Suc_diff_Suc Suc_eq_plus1 take_Suc_Cons)
    have cur: "take (i + 1 - start) (drop start rb) = take (i - start) (drop start rb) @ [rb ! i]"
      using "1.prems" il by (simp add: Suc_diff_le take_Suc_conv_app_nth)
    show ?thesis
    proof (cases "rb ! i = newline")
      case nl: True
      have pk: "take (i - start + 1) (drop start rb) = take (i - start) (drop start rb) @ [newline]"
        using cur nl "1.prems" by (simp add: Suc_diff_le)
      show ?thesis
      proof (cases "emit_packet env (take (i - start) (drop start rb) @ [newline]) w")
        case (Inl w')
        then show ?thesis
          using True nl rest pk by (subst scan.simps) (simp add: emit_packet_def)
      next
        case (Inr w')
        have "scan env rb dl (i + 1) (i + 1) w' =
          (case emit_packets env (packets [] (take (dl - (i + 1)) (drop (i + 1) rb))) w' of
             Inl w'' \<Rightarrow> Inl w''
           | Inr w'' \<Rightarrow> Inr (dl - length (residue [] (take (dl - (i + 1)) (drop (i + 1) rb))), w''))"
          using "1.IH"(1) [OF True nl refl, of w'] Inr pk True "1.prems"
          by (simp add: emit_packet_def cong: sum.case_cong)
        then show ?thesis
          using True nl rest pk Inr
          by (subst scan.simps) (simp add: emit_packet_def cong: sum.case_cong)
      qed
    next
      case nnl: False
      show ?thesis
        using True nnl "1.IH"(2) [OF True nnl] "1.prems" rest cur
        by (subst scan.simps) (simp cong: sum.case_cong)
    qed
  qed
qed


lemma newsize_loop_Some:
  "newsize_loop need newsize = Some r \<Longrightarrow> need < r \<and> newsize \<le> r"
proof (induction rule: newsize_loop.raw_induct [rotated 1, consumes 1, case_names step])
  case (step f need newsize r)
  show ?case
  proof (cases "need \<ge> newsize")
    case True
    with step(2) have "f need (newsize * 2) = Some r" by simp
    from step(1) [OF this] show ?thesis by simp
  next
    case False
    with step(2) show ?thesis by simp
  qed
qed

lemma newsize_loop_total: "0 < newsize \<Longrightarrow> \<exists>r. newsize_loop need newsize = Some r"
proof (induction "Suc need - newsize" arbitrary: newsize rule: less_induct)
  case less
  show ?case
  proof (cases "need \<ge> newsize")
    case True
    have "Suc need - newsize * 2 < Suc need - newsize" using True less.prems by simp
    from less.hyps [OF this] less.prems obtain r where "newsize_loop need (newsize * 2) = Some r"
      by auto
    then show ?thesis using True by (subst newsize_loop.simps) simp
  next
    case False
    then show ?thesis by (subst newsize_loop.simps) simp
  qed
qed

lemma resize_abs:
  "map_option (map_sum id (\<lambda>(b', w'). (bufsize b', w'))) (resize env n b w)
     = resize_spec env n (datalen b) (bufsize b) w"
  by (simp add: resize_def resize_spec_def split: option.splits)

lemma resize_Inr:
  assumes "resize env n b w = Some (Inr (b1, w1))" and "buf_ok b"
  shows "length (recvbuf b1) = bufsize b1 \<and> datalen b1 + n < bufsize b1
         \<and> datalen b1 = datalen b \<and> pending b1 = pending b"
proof (cases "datalen b + n \<ge> bufsize b")
  case False
  with assms show ?thesis by (auto simp: resize_def buf_ok_def)
next
  case True
  with assms obtain ns where ns: "newsize_loop (datalen b + n) (bufsize b * 2) = Some ns"
    and b1: "b1 = b\<lparr>recvbuf := recvbuf b @ map (junk env) [bufsize b..<ns], bufsize := ns\<rparr>"
    by (auto simp: resize_def split: option.splits if_splits)
  from newsize_loop_Some [OF ns] have "datalen b + n < ns" "bufsize b * 2 \<le> ns" by auto
  with assms(2) b1 show ?thesis by (auto simp: buf_ok_def pending_def)
qed

lemma take_memcpy_at:
  "off + length src \<le> length dst \<Longrightarrow> take (off + length src) (memcpy_at dst off src) = take off dst @ src"
  by (simp add: memcpy_at_def)

lemma length_memcpy_at:
  "off + length src \<le> length dst \<Longrightarrow> length (memcpy_at dst off src) = length dst"
  by (simp add: memcpy_at_def)

lemma compact_ok:
  assumes "pending b = concat ps @ r" and "buf_ok b" and "start = datalen b - length r"
  shows "pending (compact start b) = r \<and> buf_ok (compact start b)
       \<and> bufsize (compact start b) = bufsize b"
proof -
  have le: "datalen b \<le> length (recvbuf b)" using assms(2) by (simp add: buf_ok_def)
  have len: "datalen b = length (concat ps) + length r"
    using assms(1) le unfolding pending_def by (metis length_append length_take min.absorb2)
  then have st: "start = length (concat ps)" using assms(3) by simp
  have dr: "take (datalen b - start) (drop start (recvbuf b)) = r"
    using assms(1) st unfolding pending_def by (metis append_eq_conv_conj drop_take)
  show ?thesis
  proof (cases "start > 0 \<and> start < datalen b")
    case True
    then show ?thesis using dr assms(2) len st
      by (auto simp: compact_def pending_def buf_ok_def memmove_front_def)
  next
    case False
    show ?thesis
    proof (cases "start = datalen b")
      case True
      then have "r = []" using len st by simp
      then show ?thesis using True False assms(2)
        by (auto simp: compact_def pending_def buf_ok_def)
    next
      case ne: False
      with False have "start = 0" using st len by simp
      then have "concat ps = []" using st by simp
      then show ?thesis using ne False assms
        by (auto simp: compact_def)
    qed
  qed
qed

text \<open>
  The inner loop runs its body once for a chunk that is not empty: the body copies all that
  is left of the chunk.
\<close>

lemma ingest_Nil: "ingest env [] b w = Some (Inr (b, w))"
  by (simp add: ingest_def ingest_loop.simps)

lemma ingest_once:
  assumes "temp \<noteq> []"
  shows "ingest env temp b w =
     (case resize env (length temp) b w of
        None \<Rightarrow> None
      | Some (Inl w') \<Rightarrow> Some (Inl w')
      | Some (Inr (b1, w1)) \<Rightarrow>
          (case scan env (memcpy_at (recvbuf b1) (datalen b1) temp) (datalen b1 + length temp) 0 0 w1 of
             Inl w' \<Rightarrow> Some (Inl w')
           | Inr (start, w2) \<Rightarrow>
               Some (Inr (compact start
                            (b1\<lparr>recvbuf := memcpy_at (recvbuf b1) (datalen b1) temp,
                                datalen := datalen b1 + length temp\<rparr>), w2))))"
proof -
  have stop: "ingest_loop env temp (length temp) b' w' = Some (Inr (b', w'))" for b' w'
    by (subst ingest_loop.simps) simp
  show ?thesis
    using assms unfolding ingest_def
    by (subst ingest_loop.simps)
       (simp add: ingest_body_def Let_def stop split: option.splits sum.splits prod.splits)
qed

lemma ingest_step:
  assumes ok: "buf_ok b" and nn: "newline \<notin> set (pending b)" and ne: "temp \<noteq> []"
    and rs: "resize env (length temp) b w = Some (Inr (b1, w1))"
  shows "case ingest env temp b w of
           None \<Rightarrow> False
         | Some (Inl w') \<Rightarrow> emit_packets env (packets (pending b) temp) w1 = Inl w'
         | Some (Inr (b', w')) \<Rightarrow>
             emit_packets env (packets (pending b) temp) w1 = Inr w'
             \<and> pending b' = residue (pending b) temp \<and> buf_ok b' \<and> bufsize b' = bufsize b1"
proof -
  let ?n = "length temp"
  let ?b2 = "b1\<lparr>recvbuf := memcpy_at (recvbuf b1) (datalen b1) temp, datalen := datalen b1 + ?n\<rparr>"
  from resize_Inr [OF rs ok]
  have b1: "length (recvbuf b1) = bufsize b1" "datalen b1 + ?n < bufsize b1"
    "datalen b1 = datalen b" "pending b1 = pending b" by auto
  have ok2: "buf_ok ?b2" using b1 by (simp add: buf_ok_def length_memcpy_at)
  have p2: "pending ?b2 = pending b @ temp"
    using b1 take_memcpy_at [of "datalen b1" temp "recvbuf b1"] by (simp add: pending_def)
  have sc: "scan env (recvbuf ?b2) (datalen ?b2) 0 0 w1 =
      (case emit_packets env (packets (pending b) temp) w1 of
         Inl w' \<Rightarrow> Inl w'
       | Inr w' \<Rightarrow> Inr (datalen ?b2 - length (residue (pending b) temp), w'))"
    using scan_eq [of 0 0 "datalen ?b2" "recvbuf ?b2" env w1] ok2 p2 nn
    by (simp add: buf_ok_def pending_def packets_shift residue_shift cong: sum.case_cong)
  have split: "pending ?b2 = concat (packets (pending b) temp) @ residue (pending b) temp"
    using p2 by (simp add: concat_packets_residue)
  have ing: "ingest env temp b w =
      (case scan env (recvbuf ?b2) (datalen ?b2) 0 0 w1 of
         Inl w' \<Rightarrow> Some (Inl w')
       | Inr (start, w2) \<Rightarrow> Some (Inr (compact start ?b2, w2)))"
    using rs by (simp add: ingest_once [OF ne])
  show ?thesis
  proof (cases "emit_packets env (packets (pending b) temp) w1")
    case (Inl w')
    then show ?thesis using ing sc by simp
  next
    case (Inr w')
    from compact_ok [OF split ok2 refl] Inr show ?thesis using ing sc by simp
  qed
qed


lemma length_pending: "buf_ok b \<Longrightarrow> length (pending b) = datalen b"
  by (simp add: buf_ok_def pending_def)

lemma ingest_abs:
  assumes ok: "buf_ok b" and nn: "newline \<notin> set (pending b)"
  shows "abs_result (ingest env temp b w) = ingest_spec env temp (abs_buf b) w"
proof (cases "temp = []")
  case True
  then show ?thesis using ok
    by (simp add: ingest_Nil ingest_spec_def resize_spec_def abs_result_def abs_buf_def
        length_pending buf_ok_def)
next
  case ne: False
  note once = ingest_once [OF ne, of env b w]
  show ?thesis
  proof (cases "resize env (length temp) b w")
    case None
    with resize_abs [of env "length temp" b w, symmetric] show ?thesis
      using ok by (simp add: once ingest_spec_def abs_result_def abs_buf_def length_pending)
  next
    case (Some r)
    show ?thesis
    proof (cases r)
      case (Inl w')
      with Some resize_abs [of env "length temp" b w, symmetric] show ?thesis
        using ok by (simp add: once ingest_spec_def abs_result_def abs_buf_def length_pending)
    next
      case (Inr bw)
      obtain b1 w1 where bw: "bw = (b1, w1)" by (cases bw)
      with Some Inr have rs: "resize env (length temp) b w = Some (Inr (b1, w1))" by simp
      with resize_abs [of env "length temp" b w, symmetric]
      have sp: "resize_spec env (length temp) (length (pending b)) (bufsize b) w
                  = Some (Inr (bufsize b1, w1))"
        using ok by (simp add: length_pending)
      from ingest_step [OF ok nn ne rs] sp show ?thesis
        by (auto simp: ingest_spec_def abs_result_def abs_buf_def split: option.splits sum.splits)
    qed
  qed
qed

lemma ingest_inv:
  assumes ok: "buf_ok b" and nn: "newline \<notin> set (pending b)"
    and ing: "ingest env temp b w = Some (Inr (b', w'))"
  shows "buf_ok b' \<and> newline \<notin> set (pending b')"
proof (cases "temp = []")
  case True
  with ing ok nn show ?thesis by (simp add: ingest_Nil)
next
  case ne: False
  from ing obtain b1 w1 where rs: "resize env (length temp) b w = Some (Inr (b1, w1))"
    by (auto simp: ingest_once [OF ne] split: option.splits sum.splits)
  from ingest_step [OF ok nn ne rs] ing residue_no_newline [OF nn, of temp] show ?thesis by simp
qed

lemma recv_loop_abs:
  "buf_ok b \<Longrightarrow> newline \<notin> set (pending b) \<Longrightarrow>
   abs_result (recv_loop env chunks b w) = recv_loop_spec env chunks (abs_buf b) w"
proof (induction chunks arbitrary: b w)
  case Nil
  then show ?case by (simp add: abs_result_def)
next
  case (Cons temp rest)
  show ?case
  proof (cases "length temp > 0")
    case False
    then show ?thesis by (simp add: abs_result_def)
  next
    case True
    note ia = ingest_abs [OF Cons.prems, of env temp w, symmetric]
    show ?thesis
    proof (cases "ingest env temp b w")
      case None
      with ia True show ?thesis by (simp add: abs_result_def)
    next
      case (Some r)
      show ?thesis
      proof (cases r)
        case (Inl w')
        with Some ia True show ?thesis by (auto simp: abs_result_def)
      next
        case (Inr bw)
        obtain b' w' where bw: "bw = (b', w')" by (cases bw)
        with Some Inr have ing: "ingest env temp b w = Some (Inr (b', w'))" by simp
        from ingest_inv [OF Cons.prems ing] have inv: "buf_ok b'" "newline \<notin> set (pending b')"
          by auto
        from ia ing have "ingest_spec env temp (abs_buf b) w = Some (Inr (abs_buf b', w'))"
          by (simp add: abs_result_def)
        with Cons.IH [OF inv, of w'] ing True show ?thesis by simp
      qed
    qed
  qed
qed

lemma recv_loop_inv:
  "buf_ok b \<Longrightarrow> newline \<notin> set (pending b) \<Longrightarrow> recv_loop env chunks b w = Some (Inr (b', w'))
   \<Longrightarrow> buf_ok b' \<and> newline \<notin> set (pending b')"
proof (induction chunks arbitrary: b w)
  case Nil
  then show ?case by simp
next
  case (Cons temp rest)
  show ?case
  proof (cases "length temp > 0")
    case False
    with Cons.prems show ?thesis by simp
  next
    case True
    with Cons.prems(3) obtain b1 w1 where ing: "ingest env temp b w = Some (Inr (b1, w1))"
      and rest: "recv_loop env rest b1 w1 = Some (Inr (b', w'))"
      by (auto split: option.splits sum.splits)
    from ingest_inv [OF Cons.prems(1,2) ing] Cons.IH [OF _ _ rest] show ?thesis by simp
  qed
qed

lemma malloc_buf_ok:
  "buf_ok \<lparr>recvbuf = map j [0..<1024], bufsize = 1024, datalen = 0\<rparr>"
  "pending \<lparr>recvbuf = map j [0..<1024], bufsize = 1024, datalen = 0\<rparr> = []"
  "abs_buf \<lparr>recvbuf = map j [0..<1024], bufsize = 1024, datalen = 0\<rparr> = ([], 1024)"
  by (simp_all add: buf_ok_def pending_def abs_buf_def)

lemma handle_client_abs:
  "handle_client env client_ip chunks w0 = handle_client_spec env client_ip chunks w0"
proof -
  let ?b = "\<lparr>recvbuf = map (junk env) [0..<1024], bufsize = 1024, datalen = 0\<rparr>"
  let ?w = "bump (bump (emit [Syslog_info (''Accepted connection from '' @ client_ip)] w0))"
  have ab: "recv_loop_spec env chunks ([], 1024) ?w = abs_result (recv_loop env chunks ?b ?w)"
    using recv_loop_abs [of ?b env chunks ?w] by (simp add: malloc_buf_ok)
  have "(case recv_loop env chunks ?b ?w of
           None \<Rightarrow> None
         | Some (Inl w) \<Rightarrow> Some w
         | Some (Inr (b', w)) \<Rightarrow>
             Some (emit [Syslog_info (''Closed connection from '' @ client_ip)] (release w)))
      = (case recv_loop_spec env chunks ([], 1024) ?w of
           None \<Rightarrow> None
         | Some (Inl w) \<Rightarrow> Some w
         | Some (Inr (pc, w)) \<Rightarrow>
             Some (emit [Syslog_info (''Closed connection from '' @ client_ip)] (release w)))"
    unfolding ab by (simp add: abs_result_def split: option.splits sum.splits)
  then show ?thesis
    unfolding handle_client_def handle_client_spec_def Let_def by simp
qed

lemma send_file_Nil: "send_file env [] w = w"
  by (subst send_file.simps) simp

lemma send_file_Cons:
  "send_file env (c # cs) w =
     (case send_result env (tick w) (length (take 1024 (c # cs))) of
        None \<Rightarrow> emit [Syslog_err ''Failed to send data to client''] (bump w)
      | Some k \<Rightarrow> send_file env (drop 1024 (c # cs)) (emit [Sent (take k (take 1024 (c # cs)))] (bump w)))"
  by (subst send_file.simps) (simp add: Let_def cong: option.case_cong)



section \<open>Runs in which no call fails\<close>

lemma appended_append: "appended (es @ fs) = appended es @ appended fs"
  by (induction es rule: appended.induct) auto

lemma concat_blocks: "concat (blocks s) = s"
  by (induction s rule: blocks.induct) (subst blocks.simps, simp)

lemma blocks_Nil: "blocks [] = []"
  by (subst blocks.simps) simp

lemma blocks_Cons: "blocks (c # cs) = take 1024 (c # cs) # blocks (drop 1024 (c # cs))"
  by (subst blocks.simps) simp

lemma send_file_store: "store (send_file env content w) = store w"
  by (induction env content w rule: send_file.induct)
     (subst send_file.simps, simp add: Let_def emit_def bump_def split: option.splits)

lemma send_file_appended: "appended (trace (send_file env content w)) = appended (trace w)"
  by (induction env content w rule: send_file.induct)
     (subst send_file.simps, simp add: Let_def emit_def bump_def appended_append split: option.splits)

lemma send_file_ok:
  "\<forall>t n. send_result env t n = Some n \<Longrightarrow>
   trace (send_file env content w) = trace w @ map Sent (blocks content)"
proof (induction env content w rule: send_file.induct)
  case (1 env content w)
  show ?case
  proof (cases "content = []")
    case True
    then show ?thesis by (simp add: send_file_Nil blocks_Nil)
  next
    case False
    then have len: "0 < length (take 1024 content)" by simp
    have sr: "send_result env (tick w) (length (take 1024 content)) = Some (length (take 1024 content))"
      using "1.prems" by blast
    from "1.IH" [OF refl refl len sr "1.prems"] False sr show ?thesis
      by (subst send_file.simps, subst blocks.simps)
         (simp add: Let_def emit_def bump_def min_def)
  qed
qed

lemma emit_packet_ok:
  assumes "no_abort env"
  shows "\<exists>w'. emit_packet env p w = Inr w'
           \<and> appended (trace w') = appended (trace w) @ [p]
           \<and> (io_ok env \<longrightarrow> store w' = store w @ p
                \<and> trace w' = trace w @ Fwrite p # map Sent (blocks (store w @ p)) @ [Fclose_fp2])"
  using assms
  by (simp add: emit_packet_def reply_def fwrite_fflush_def no_abort_def io_ok_def emit_def bump_def
      send_file_store send_file_appended send_file_ok appended_append)

lemma ideal_events_append:
  "ideal_events st (ps @ qs) = ideal_events st ps @ ideal_events (st @ concat ps) qs"
  by (induction ps arbitrary: st) auto

lemma emit_packets_ok:
  assumes "no_abort env"
  shows "\<exists>w'. emit_packets env ps w = Inr w'
           \<and> appended (trace w') = appended (trace w) @ ps
           \<and> (io_ok env \<longrightarrow> store w' = store w @ concat ps
                \<and> trace w' = trace w @ ideal_events (store w) ps)"
proof (induction ps arbitrary: w)
  case Nil
  then show ?case by simp
next
  case (Cons p ps)
  from emit_packet_ok [OF assms, of p w] obtain w1 where
    w1: "emit_packet env p w = Inr w1" "appended (trace w1) = appended (trace w) @ [p]"
     "io_ok env \<longrightarrow> store w1 = store w @ p
                \<and> trace w1 = trace w @ Fwrite p # map Sent (blocks (store w @ p)) @ [Fclose_fp2]"
    by blast
  from Cons.IH [of w1] obtain w2 where
    w2: "emit_packets env ps w1 = Inr w2" "appended (trace w2) = appended (trace w1) @ ps"
     "io_ok env \<longrightarrow> store w2 = store w1 @ concat ps
                \<and> trace w2 = trace w1 @ ideal_events (store w1) ps"
    by blast
  show ?case using w1 w2 by auto
qed


lemma resize_spec_ok:
  assumes "no_abort env" and "0 < cap"
  shows "\<exists>cap' w1. resize_spec env n len cap w = Some (Inr (cap', w1)) \<and> 0 < cap'
           \<and> store w1 = store w \<and> trace w1 = trace w"
proof (cases "len + n \<ge> cap")
  case False
  then show ?thesis using assms by (simp add: resize_spec_def)
next
  case True
  from newsize_loop_total [of "cap * 2" "len + n"] assms(2)
  obtain r where r: "newsize_loop (len + n) (cap * 2) = Some r" by auto
  from newsize_loop_Some [OF r] have "0 < r" by simp
  then show ?thesis using True r assms(1)
    by (simp add: resize_spec_def no_abort_def bump_def)
qed

lemma resize_spec_total: "0 < cap \<Longrightarrow> resize_spec env n len cap w \<noteq> None"
  using newsize_loop_total [of "cap * 2" "len + n"]
  by (auto simp: resize_spec_def)

lemma resize_spec_Inr:
  "resize_spec env n len cap w = Some (Inr (cap', w1)) \<Longrightarrow> cap \<le> cap'"
  by (auto simp: resize_spec_def split: if_splits option.splits dest: newsize_loop_Some)

lemma ingest_spec_ok:
  assumes "no_abort env" and "0 < cap"
  shows "\<exists>cap' w'. ingest_spec env temp (p, cap) w = Some (Inr ((residue p temp, cap'), w'))
           \<and> 0 < cap'
           \<and> appended (trace w') = appended (trace w) @ packets p temp
           \<and> (io_ok env \<longrightarrow> store w' = store w @ concat (packets p temp)
                \<and> trace w' = trace w @ ideal_events (store w) (packets p temp))"
proof -
  from resize_spec_ok [OF assms, of "length temp" "length p" w] obtain cap' w1 where
    rs: "resize_spec env (length temp) (length p) cap w = Some (Inr (cap', w1))" "0 < cap'"
      "store w1 = store w" "trace w1 = trace w" by blast
  from emit_packets_ok [OF assms(1), of "packets p temp" w1] obtain w2 where
    ep: "emit_packets env (packets p temp) w1 = Inr w2"
      "appended (trace w2) = appended (trace w1) @ packets p temp"
      "io_ok env \<longrightarrow> store w2 = store w1 @ concat (packets p temp)
                \<and> trace w2 = trace w1 @ ideal_events (store w1) (packets p temp)" by blast
  show ?thesis using rs ep by (simp add: ingest_spec_def)
qed

lemma ingest_spec_total: "0 < cap \<Longrightarrow> ingest_spec env temp (p, cap) w \<noteq> None"
  using resize_spec_total [of cap env "length temp" "length p" w]
  by (auto simp: ingest_spec_def split: option.splits sum.splits)

lemma ingest_spec_Inr:
  "ingest_spec env temp (p, cap) w = Some (Inr ((p', cap'), w')) \<Longrightarrow>
   p' = residue p temp \<and> cap \<le> cap'"
  by (auto simp: ingest_spec_def split: option.splits sum.splits dest: resize_spec_Inr)

lemma recv_loop_spec_ok:
  assumes "no_abort env"
  shows "[] \<notin> set cs \<Longrightarrow> 0 < cap \<Longrightarrow>
     \<exists>cap' w'. recv_loop_spec env cs (p, cap) w = Some (Inr ((residue p (concat cs), cap'), w'))
           \<and> appended (trace w') = appended (trace w) @ packets p (concat cs)
           \<and> (io_ok env \<longrightarrow> store w' = store w @ concat (packets p (concat cs))
                \<and> trace w' = trace w @ ideal_events (store w) (packets p (concat cs)))"
proof (induction cs arbitrary: p cap w)
  case Nil
  then show ?case by simp
next
  case (Cons temp rest)
  from Cons.prems have ne: "temp \<noteq> []" and rest: "[] \<notin> set rest" by auto
  from ingest_spec_ok [OF assms Cons.prems(2), of temp p w] obtain cap1 w1 where
    i1: "ingest_spec env temp (p, cap) w = Some (Inr ((residue p temp, cap1), w1))" "0 < cap1"
      "appended (trace w1) = appended (trace w) @ packets p temp"
      "io_ok env \<longrightarrow> store w1 = store w @ concat (packets p temp)
                \<and> trace w1 = trace w @ ideal_events (store w) (packets p temp)" by blast
  from Cons.IH [OF rest i1(2), of "residue p temp" w1] obtain cap2 w2 where
    i2: "recv_loop_spec env rest (residue p temp, cap1) w1
           = Some (Inr ((residue (residue p temp) (concat rest), cap2), w2))"
      "appended (trace w2) = appended (trace w1) @ packets (residue p temp) (concat rest)"
      "io_ok env \<longrightarrow> store w2 = store w1 @ concat (packets (residue p temp) (concat rest))
                \<and> trace w2 = trace w1 @ ideal_events (store w1) (packets (residue p temp) (concat rest))"
    by blast
  show ?case using ne i1 i2
    by (auto simp: packets_append residue_append ideal_events_append)
qed

lemma recv_loop_spec_total:
  "0 < cap \<Longrightarrow> recv_loop_spec env cs (p, cap) w \<noteq> None"
proof (induction cs arbitrary: p cap w)
  case Nil
  then show ?case by simp
next
  case (Cons temp rest)
  show ?case
  proof (cases "ingest_spec env temp (p, cap) w")
    case None
    with ingest_spec_total [OF Cons.prems, of env temp p w] show ?thesis by simp
  next
    case (Some r)
    show ?thesis
    proof (cases r)
      case (Inl w')
      with Some show ?thesis by simp
    next
      case (Inr pcw)
      obtain p' cap' w' where "pcw = ((p', cap'), w')" by (cases pcw) auto
      with Some Inr have i: "ingest_spec env temp (p, cap) w = Some (Inr ((p', cap'), w'))" by simp
      from ingest_spec_Inr [OF i] Cons.prems have "0 < cap'" by simp
      from Cons.IH [OF this] i show ?thesis by simp
    qed
  qed
qed

lemma recv_loop_spec_Inr:
  "[] \<notin> set cs \<Longrightarrow> recv_loop_spec env cs (p, cap) w = Some (Inr ((p', cap'), w')) \<Longrightarrow>
   p' = residue p (concat cs)"
proof (induction cs arbitrary: p cap w)
  case Nil
  then show ?case by simp
next
  case (Cons temp rest)
  from Cons.prems obtain p1 cap1 w1 where
    i: "ingest_spec env temp (p, cap) w = Some (Inr ((p1, cap1), w1))"
    and r: "recv_loop_spec env rest (p1, cap1) w1 = Some (Inr ((p', cap'), w'))"
    by (auto split: option.splits sum.splits if_splits)
  from ingest_spec_Inr [OF i] Cons.IH [OF _ r] Cons.prems(1) show ?case
    by (simp add: residue_append)
qed

lemma handle_client_total: "handle_client env client_ip chunks w \<noteq> None"
  using recv_loop_spec_total [of 1024 env chunks "[]"
      "bump (bump (emit [Syslog_info (''Accepted connection from '' @ client_ip)] w))"]
  by (auto simp: handle_client_abs handle_client_spec_def Let_def split: option.splits sum.splits)

lemma handle_client_ok:
  assumes "starts env w" and "no_abort env" and "[] \<notin> set cs"
  shows "\<exists>w'. handle_client env client_ip cs w = Some w'
     \<and> appended (trace w') = appended (trace w) @ packets [] (concat cs)
     \<and> (io_ok env \<longrightarrow> store w' = store w @ concat (packets [] (concat cs))
          \<and> trace w' = trace w @ Syslog_info (''Accepted connection from '' @ client_ip)
                # ideal_events (store w) (packets [] (concat cs))
                @ [Free_recvbuf, Fclose_fp, Close_clientfd,
                   Syslog_info (''Closed connection from '' @ client_ip)])"
proof -
  let ?w = "bump (bump (emit [Syslog_info (''Accepted connection from '' @ client_ip)] w))"
  from recv_loop_spec_ok [OF assms(2,3), of 1024 "[]" ?w] obtain cap' w' where
    r: "recv_loop_spec env cs ([], 1024) ?w = Some (Inr ((residue [] (concat cs), cap'), w'))"
      "appended (trace w') = appended (trace ?w) @ packets [] (concat cs)"
      "io_ok env \<longrightarrow> store w' = store ?w @ concat (packets [] (concat cs))
                \<and> trace w' = trace ?w @ ideal_events (store ?w) (packets [] (concat cs))"
    by auto
  show ?thesis using assms(1) r
    by (simp add: handle_client_abs handle_client_spec_def Let_def starts_def
        emit_def bump_def release_def appended_append)
qed


lemma packets_end: "concat (packets cur s) = [] \<or> last (concat (packets cur s)) = newline"
  by (induction s arbitrary: cur) auto

lemma split_at_last_newline:
  assumes "a @ r = s" and "newline \<notin> set r" and "a = [] \<or> last a = newline"
  shows "upto_last_newline s = a \<and> after_last_newline s = r"
proof -
  let ?P = "\<lambda>c. c \<noteq> newline"
  have ra: "takeWhile ?P (rev a) = [] \<and> dropWhile ?P (rev a) = rev a"
  proof (cases "a = []")
    case True
    then show ?thesis by simp
  next
    case False
    with assms(3) have "hd (rev a) = newline" by (simp add: hd_rev)
    moreover from False have "rev a \<noteq> []" by simp
    ultimately show ?thesis by (cases "rev a") auto
  qed
  have "takeWhile ?P (rev r @ rev a) = rev r @ takeWhile ?P (rev a)"
    by (rule takeWhile_append2) (use assms(2) in auto)
  moreover have "dropWhile ?P (rev r @ rev a) = dropWhile ?P (rev a)"
    by (rule dropWhile_append2) (use assms(2) in auto)
  ultimately show ?thesis using ra assms(1)
    by (auto simp: upto_last_newline_def after_last_newline_def)
qed

lemma packets_upto: "concat (packets [] s) = upto_last_newline s"
  using split_at_last_newline [OF _ residue_no_newline packets_end, of "[]" s "[]" s]
  by (simp add: concat_packets_residue)

lemma residue_after: "residue [] s = after_last_newline s"
  using split_at_last_newline [OF _ residue_no_newline packets_end, of "[]" s "[]" s]
  by (simp add: concat_packets_residue)

lemma abs_result_Inr:
  assumes "abs_result r = Some (Inr (pc, w'))"
  shows "\<exists>b'. r = Some (Inr (b', w')) \<and> abs_buf b' = pc"
proof (cases r)
  case None
  with assms show ?thesis by (simp add: abs_result_def)
next
  case (Some x)
  with assms show ?thesis by (cases x) (auto simp: abs_result_def)
qed

lemma recv_loop_ok:
  assumes "no_abort env" and "[] \<notin> set cs" and "buf_ok b" and "newline \<notin> set (pending b)"
  shows "\<exists>b' w'. recv_loop env cs b w = Some (Inr (b', w'))
     \<and> buf_ok b' \<and> pending b' = residue (pending b) (concat cs)
     \<and> appended (trace w') = appended (trace w) @ packets (pending b) (concat cs)
     \<and> (io_ok env \<longrightarrow> store w' = store w @ concat (packets (pending b) (concat cs))
          \<and> trace w' = trace w @ ideal_events (store w) (packets (pending b) (concat cs)))"
proof -
  have "0 < bufsize b" using assms(3) by (simp add: buf_ok_def)
  from recv_loop_spec_ok [OF assms(1,2) this, of "pending b" w] obtain cap' w' where
    r: "recv_loop_spec env cs (pending b, bufsize b) w
          = Some (Inr ((residue (pending b) (concat cs), cap'), w'))"
      "appended (trace w') = appended (trace w) @ packets (pending b) (concat cs)"
      "io_ok env \<longrightarrow> store w' = store w @ concat (packets (pending b) (concat cs))
          \<and> trace w' = trace w @ ideal_events (store w) (packets (pending b) (concat cs))"
    by blast
  from recv_loop_abs [OF assms(3,4), of env cs w] r(1)
  have "abs_result (recv_loop env cs b w)
          = Some (Inr ((residue (pending b) (concat cs), cap'), w'))"
    by (simp add: abs_buf_def)
  from abs_result_Inr [OF this]
  obtain b' where b': "recv_loop env cs b w = Some (Inr (b', w'))"
    "pending b' = residue (pending b) (concat cs)"
    by (auto simp: abs_buf_def)
  from recv_loop_inv [OF assms(3,4) b'(1)] b' r show ?thesis by auto
qed

section \<open>Framing\<close>

text \<open>
  C1. The packets that \<^verbatim>\<open>handle_client\<close> hands to \<^verbatim>\<open>fwrite\<close> on one connection
  depend on the bytes received only, not on how \<^verbatim>\<open>recv\<close> cut them into chunks: for two
  lists of non-empty chunks with the same concatenation, and surroundings in which neither
  \<^verbatim>\<open>realloc\<close> nor the opening of the file for reading fails, both runs return and
  append the same packets in the same order; when the connection starts these are the
  packets of the stream; when moreover every write and send is complete, the two runs leave
  the same trace and the same file.
\<close>
theorem rechunking_same_packets:
  assumes "no_abort env" and "[] \<notin> set cs" and "[] \<notin> set cs'" and "concat cs = concat cs'"
  shows "\<exists>w1 w2. handle_client env client_ip cs w = Some w1
           \<and> handle_client env client_ip cs' w = Some w2
           \<and> appended (trace w1) = appended (trace w2)
           \<and> (starts env w \<longrightarrow> appended (trace w1) = appended (trace w) @ packets [] (concat cs))
           \<and> (io_ok env \<longrightarrow> trace w1 = trace w2 \<and> store w1 = store w2)"
proof (cases "starts env w")
  case True
  from handle_client_ok [OF True assms(1,2), of client_ip] obtain w1 where
    w1: "handle_client env client_ip cs w = Some w1"
      "appended (trace w1) = appended (trace w) @ packets [] (concat cs)"
      "io_ok env \<longrightarrow> store w1 = store w @ concat (packets [] (concat cs))
          \<and> trace w1 = trace w @ Syslog_info (''Accepted connection from '' @ client_ip)
                # ideal_events (store w) (packets [] (concat cs))
                @ [Free_recvbuf, Fclose_fp, Close_clientfd,
                   Syslog_info (''Closed connection from '' @ client_ip)]"
    by blast
  from handle_client_ok [OF True assms(1,3), of client_ip] obtain w2 where
    w2: "handle_client env client_ip cs' w = Some w2"
      "appended (trace w2) = appended (trace w) @ packets [] (concat cs')"
      "io_ok env \<longrightarrow> store w2 = store w @ concat (packets [] (concat cs'))
          \<and> trace w2 = trace w @ Syslog_info (''Accepted connection from '' @ client_ip)
                # ideal_events (store w) (packets [] (concat cs'))
                @ [Free_recvbuf, Fclose_fp, Close_clientfd,
                   Syslog_info (''Closed connection from '' @ client_ip)]"
    by blast
  show ?thesis using w1 w2 assms(4) by simp
next
  case False
  then have eq: "handle_client env client_ip cs w = handle_client env client_ip cs' w"
    by (simp add: handle_client_abs handle_client_spec_def starts_def Let_def bump_def emit_def)
  from handle_client_total [of env client_ip cs w] obtain w1 where
    w1: "handle_client env client_ip cs w = Some w1" by auto
  with eq have "handle_client env client_ip cs' w = Some w1" by simp
  with w1 False show ?thesis by simp
qed

theorem rechunking_same_packets_witness:
  "\<exists>w1 w2. handle_client ok_env ''10.0.0.1'' [''a\<newline>b\<newline>c''] fresh = Some w1
       \<and> handle_client ok_env ''10.0.0.1'' [''a'', ''\<newline>b'', ''\<newline>c''] fresh = Some w2
       \<and> appended (trace w1) = appended (trace w2)
       \<and> appended (trace w1) = [''a\<newline>'', ''b\<newline>'']
       \<and> trace w1 = trace w2 \<and> store w1 = store w2"
proof -
  have h1: "no_abort ok_env" by (simp add: no_abort_def ok_env_def)
  have h2: "[] \<notin> set [''a\<newline>b\<newline>c'']" by simp
  have h3: "[] \<notin> set [''a'', ''\<newline>b'', ''\<newline>c'']" by simp
  have h4: "concat [''a\<newline>b\<newline>c''] = concat [''a'', ''\<newline>b'', ''\<newline>c'']" by simp
  have h5: "starts ok_env fresh" "io_ok ok_env"
    by (simp_all add: starts_def io_ok_def ok_env_def)
  have pk: "appended (trace fresh) @ packets [] (concat [''a\<newline>b\<newline>c''])
              = [''a\<newline>'', ''b\<newline>'']"
    by (simp add: newline_def fresh_def)
  from rechunking_same_packets [OF h1 h2 h3 h4, of "''10.0.0.1''" fresh]
  obtain w1 w2 where
    "handle_client ok_env ''10.0.0.1'' [''a\<newline>b\<newline>c''] fresh = Some w1"
    "handle_client ok_env ''10.0.0.1'' [''a'', ''\<newline>b'', ''\<newline>c''] fresh = Some w2"
    "appended (trace w1) = appended (trace w2)"
    "starts ok_env fresh \<longrightarrow>
       appended (trace w1) = appended (trace fresh) @ packets [] (concat [''a\<newline>b\<newline>c''])"
    "io_ok ok_env \<longrightarrow> trace w1 = trace w2 \<and> store w1 = store w2"
    by blast
  with h5 pk show ?thesis by simp
qed


text \<open>
  C2. After the receive loop has taken the chunks \<open>cs\<close> into a buffer that was empty,
  the packets handed to \<^verbatim>\<open>fwrite\<close> on this connection, put end to end, are the bytes
  received up to and including the last delimiter; the bytes after it are the first
  \<open>datalen\<close> bytes of \<open>recvbuf\<close>; the two together are the bytes received, so nothing is
  lost and nothing is there twice. When every write is complete the file has grown by
  exactly the bytes up to the last delimiter.
\<close>
theorem appended_is_stream_up_to_last_newline:
  assumes "no_abort env" and "[] \<notin> set cs" and "buf_ok b" and "datalen b = 0"
  shows "\<exists>b' w'. recv_loop env cs b w = Some (Inr (b', w'))
     \<and> concat (appended (trace w')) = concat (appended (trace w)) @ upto_last_newline (concat cs)
     \<and> take (datalen b') (recvbuf b') = after_last_newline (concat cs)
     \<and> upto_last_newline (concat cs) @ take (datalen b') (recvbuf b') = concat cs
     \<and> (io_ok env \<longrightarrow> store w' = store w @ upto_last_newline (concat cs))"
proof -
  have p: "pending b = []" using assms(4) by (simp add: pending_def)
  then have nn: "newline \<notin> set (pending b)" by simp
  from recv_loop_ok [OF assms(1,2,3) nn, of w] p obtain b' w' where
    r: "recv_loop env cs b w = Some (Inr (b', w'))"
      "pending b' = residue [] (concat cs)"
      "appended (trace w') = appended (trace w) @ packets [] (concat cs)"
      "io_ok env \<longrightarrow> store w' = store w @ concat (packets [] (concat cs))"
    by auto
  have "upto_last_newline (concat cs) @ after_last_newline (concat cs) = concat cs"
    using concat_packets_residue [of "[]" "concat cs"] by (simp add: packets_upto residue_after)
  with r show ?thesis
    by (simp add: packets_upto residue_after pending_def)
qed

theorem appended_is_stream_up_to_last_newline_witness:
  "\<exists>b' w'. recv_loop ok_env [''ab'', ''c\<newline>d\<newline>e'', ''f'']
               \<lparr>recvbuf = replicate 1024 (CHR ''z''), bufsize = 1024, datalen = 0\<rparr> fresh
             = Some (Inr (b', w'))
     \<and> concat (appended (trace w')) = ''abc\<newline>d\<newline>''
     \<and> take (datalen b') (recvbuf b') = ''ef''
     \<and> store w' = ''abc\<newline>d\<newline>''"
proof -
  have h1: "no_abort ok_env" by (simp add: no_abort_def ok_env_def)
  have h2: "[] \<notin> set [''ab'', ''c\<newline>d\<newline>e'', ''f'']" by simp
  have h3: "buf_ok \<lparr>recvbuf = replicate 1024 (CHR ''z''), bufsize = 1024, datalen = 0\<rparr>"
    by (simp add: buf_ok_def)
  have h4: "datalen \<lparr>recvbuf = replicate 1024 (CHR ''z''), bufsize = 1024, datalen = 0\<rparr> = 0"
    by simp
  have h5: "io_ok ok_env" by (simp add: io_ok_def ok_env_def)
  have v: "upto_last_newline (concat [''ab'', ''c\<newline>d\<newline>e'', ''f'']) = ''abc\<newline>d\<newline>''"
    "after_last_newline (concat [''ab'', ''c\<newline>d\<newline>e'', ''f'']) = ''ef''"
    by (simp_all add: upto_last_newline_def after_last_newline_def newline_def)
  from appended_is_stream_up_to_last_newline [OF h1 h2 h3 h4, of fresh] h5 v
  show ?thesis by (simp add: fresh_def)
qed

text \<open>
  C3. A client sends \<^verbatim>\<open>"a\nb\n"\<close> to a server whose data file is empty, and every
  call succeeds. However the four bytes arrive (in one chunk in particular), the handler
  appends \<^verbatim>\<open>"a\n"\<close>, sends \<^verbatim>\<open>"a\n"\<close>, appends \<^verbatim>\<open>"b\n"\<close> and sends
  \<^verbatim>\<open>"a\nb\n"\<close>, in this order, and nothing else goes to the file or the socket.
\<close>
theorem two_packets_in_one_write:
  assumes "starts env w" and "no_abort env" and "io_ok env" and "store w = []"
    and "[] \<notin> set cs" and "concat cs = ''a\<newline>b\<newline>''"
  shows "\<exists>w'. handle_client env client_ip cs w = Some w'
     \<and> store w' = ''a\<newline>b\<newline>''
     \<and> trace w' = trace w @
         [Syslog_info (''Accepted connection from '' @ client_ip),
          Fwrite ''a\<newline>'', Sent ''a\<newline>'', Fclose_fp2,
          Fwrite ''b\<newline>'', Sent ''a\<newline>b\<newline>'', Fclose_fp2,
          Free_recvbuf, Fclose_fp, Close_clientfd,
          Syslog_info (''Closed connection from '' @ client_ip)]"
proof -
  have pk: "packets [] (concat cs) = [''a\<newline>'', ''b\<newline>'']"
    using assms(6) by (simp add: newline_def)
  from handle_client_ok [OF assms(1,2,5), of client_ip] assms(3) obtain w' where
    "handle_client env client_ip cs w = Some w'"
    "store w' = store w @ concat (packets [] (concat cs))"
    "trace w' = trace w @ Syslog_info (''Accepted connection from '' @ client_ip)
                # ideal_events (store w) (packets [] (concat cs))
                @ [Free_recvbuf, Fclose_fp, Close_clientfd,
                   Syslog_info (''Closed connection from '' @ client_ip)]"
    by blast
  then show ?thesis using assms(4)
    by (simp add: pk blocks_Cons blocks_Nil)
qed

theorem two_packets_in_one_write_witness:
  "\<exists>w'. handle_client ok_env ''10.0.0.1'' [''a\<newline>b\<newline>''] fresh = Some w'
     \<and> store w' = ''a\<newline>b\<newline>''
     \<and> trace w' =
         [Syslog_info ''Accepted connection from 10.0.0.1'',
          Fwrite ''a\<newline>'', Sent ''a\<newline>'', Fclose_fp2,
          Fwrite ''b\<newline>'', Sent ''a\<newline>b\<newline>'', Fclose_fp2,
          Free_recvbuf, Fclose_fp, Close_clientfd,
          Syslog_info ''Closed connection from 10.0.0.1'']"
proof -
  have h: "starts ok_env fresh" "no_abort ok_env" "io_ok ok_env" "store fresh = []"
    "[] \<notin> set [''a\<newline>b\<newline>'']" "concat [''a\<newline>b\<newline>''] = ''a\<newline>b\<newline>''"
    by (simp_all add: starts_def no_abort_def io_ok_def ok_env_def fresh_def)
  from two_packets_in_one_write [OF h, of "''10.0.0.1''"] show ?thesis
    by (simp add: fresh_def)
qed


lemmas eval_simps = handle_client_abs handle_client_spec_def ingest_spec_def
   resize_spec_def emit_packet_def fwrite_fflush_def reply_def send_file_Nil send_file_Cons
   release_def emit_def bump_def newline_def

lemma scan_newline:
  assumes "i < dl" and "rb ! i = newline"
  shows "scan env rb dl i start w =
     (case reply env (fwrite_fflush env (take (i - start + 1) (drop start rb)) w) of
        Inl w' \<Rightarrow> Inl w'
      | Inr w' \<Rightarrow> scan env rb dl (i + 1) (i + 1) w')"
  using assms by (subst scan.simps) simp

section \<open>Replies (lines 199--217)\<close>

text \<open>
  When the file can be opened for reading and every call of \<^verbatim>\<open>send\<close> takes all the
  bytes it is given, the step at a delimiter is this: the packet goes to \<^verbatim>\<open>fwrite\<close>,
  the file as it is then is sent block by block, and the scan goes on behind the delimiter in
  the world written out below, whatever the append brought into the file.
\<close>

lemma scan_reply_complete:
  assumes "i < dl" and "rb ! i = newline"
    and "fopen_read_ok env (tick w + 1)" and "\<forall>t n. send_result env t n = Some n"
  shows "scan env rb dl i start w =
     scan env rb dl (i + 1) (i + 1)
       (emit [Fclose_fp2]
          (send_file env (store (fwrite_fflush env (take (i - start + 1) (drop start rb)) w))
             (bump (fwrite_fflush env (take (i - start + 1) (drop start rb)) w))))"
    and "trace (emit [Fclose_fp2]
          (send_file env (store (fwrite_fflush env (take (i - start + 1) (drop start rb)) w))
             (bump (fwrite_fflush env (take (i - start + 1) (drop start rb)) w))))
       = trace w @ Fwrite (take (i - start + 1) (drop start rb))
           # map Sent (blocks (store (fwrite_fflush env (take (i - start + 1) (drop start rb)) w)))
           @ [Fclose_fp2]"
proof -
  let ?pkt = "take (i - start + 1) (drop start rb)"
  let ?w1 = "fwrite_fflush env ?pkt w"
  let ?w' = "emit [Fclose_fp2] (send_file env (store ?w1) (bump ?w1))"
  have t1: "tick ?w1 = tick w + 1" by (simp add: fwrite_fflush_def bump_def emit_def)
  have r: "reply env ?w1 = Inr ?w'" using assms(3) t1 by (simp add: reply_def)
  show "scan env rb dl i start w = scan env rb dl (i + 1) (i + 1) ?w'"
    using scan_newline [OF assms(1,2), of env start w] r by simp
  show "trace ?w' = trace w @ Fwrite ?pkt # map Sent (blocks (store ?w1)) @ [Fclose_fp2]"
    using send_file_ok [OF assms(4), of "store ?w1" "bump ?w1"]
    by (simp add: emit_def bump_def fwrite_fflush_def)
qed

text \<open>
  C4. After each append the reply should be the whole content of the file, byte for byte.
  The loop that sends the file tests the result of \<^verbatim>\<open>send\<close> for \<open>< 0\<close> only: when
  \<^verbatim>\<open>send\<close> takes fewer bytes than it was given, the rest of that block is never sent
  and the loop goes on with the next block of the file. In the run below the first call of
  \<^verbatim>\<open>send\<close> (tick 4) takes one of the two bytes \<^verbatim>\<open>"a\n"\<close>: the file holds
  \<^verbatim>\<open>"a\n"\<close> and the client gets \<^verbatim>\<open>"a"\<close> as the reply to its first packet, with
  no failure logged.
\<close>

theorem short_send_truncates_reply:
  "handle_client (ok_env\<lparr>send_result := (\<lambda>t n. if t = 4 then Some 1 else Some n)\<rparr>)
     ''10.0.0.1'' [''a\<newline>b\<newline>''] fresh =
   Some \<lparr>store = ''a\<newline>b\<newline>'',
         trace = [Syslog_info ''Accepted connection from 10.0.0.1'',
                  Fwrite ''a\<newline>'', Sent ''a'', Fclose_fp2,
                  Fwrite ''b\<newline>'', Sent ''a\<newline>b\<newline>'', Fclose_fp2,
                  Free_recvbuf, Fclose_fp, Close_clientfd,
                  Syslog_info ''Closed connection from 10.0.0.1''],
         tick = 8\<rparr>"
  by (simp add: eval_simps ok_env_def fresh_def)

section \<open>Failure of an append (lines 195--207)\<close>

text \<open>
  C6. When the append of a packet fails the handler should close the connection, with a
  failure logged, no reply sent and no further packet taken. The code does not look at the
  results of \<^verbatim>\<open>fwrite\<close> and \<^verbatim>\<open>fflush\<close>. In the run below the data file holds
  \<^verbatim>\<open>"x\n"\<close>, the client sends \<^verbatim>\<open>"a\nb\n"\<close> and the append of \<^verbatim>\<open>"a\n"\<close>
  (tick 2) brings no byte into the file: nothing is logged, the file is sent all the same,
  and the next packet is appended and answered.
\<close>

theorem failed_append_is_followed_by_reply:
  "handle_client (ok_env\<lparr>fwrite_count := (\<lambda>t n. if t = 2 then 0 else n)\<rparr>)
     ''10.0.0.1'' [''a\<newline>b\<newline>''] \<lparr>store = ''x\<newline>'', trace = [], tick = 0\<rparr> =
   Some \<lparr>store = ''x\<newline>b\<newline>'',
         trace = [Syslog_info ''Accepted connection from 10.0.0.1'',
                  Fwrite ''a\<newline>'', Sent ''x\<newline>'', Fclose_fp2,
                  Fwrite ''b\<newline>'', Sent ''x\<newline>b\<newline>'', Fclose_fp2,
                  Free_recvbuf, Fclose_fp, Close_clientfd,
                  Syslog_info ''Closed connection from 10.0.0.1''],
         tick = 8\<rparr>"
  by (simp add: eval_simps ok_env_def)

lemma resize_total: "0 < bufsize b \<Longrightarrow> resize env n b w \<noteq> None"
  using newsize_loop_total [of "bufsize b * 2" "datalen b + n"]
  by (auto simp: resize_def)

lemma resize_world:
  "resize env n b w = Some (Inr (b1, w1)) \<Longrightarrow> store w1 = store w \<and> trace w1 = trace w"
  by (auto simp: resize_def bump_def split: if_splits option.splits)

lemma resize_Inl:
  "resize env n b w = Some (Inl w') \<Longrightarrow>
   \<not> realloc_ok env (tick w) \<and> bufsize b \<le> datalen b + n
   \<and> w' = \<lparr>store = store w,
            trace = trace w @ [Syslog_err ''realloc failed'', Free_recvbuf, Fclose_fp, Close_clientfd],
            tick = tick w + 1\<rparr>"
  by (auto simp: resize_def bump_def emit_def release_def split: if_splits option.splits)


section \<open>Failure to grow the buffer (lines 167--181)\<close>



section \<open>The buffer between two chunks\<close>

text \<open>
  C8. Whenever the receive loop has taken chunks into a buffer that was empty and is ready
  for the next one, \<open>datalen < bufsize\<close>, the block has \<open>bufsize\<close> bytes, and its first
  \<open>datalen\<close> bytes are exactly the bytes received after the last delimiter: those not yet
  part of a complete packet. They hold no delimiter.
\<close>
theorem buffer_invariant:
  assumes "buf_ok b" and "datalen b = 0" and "[] \<notin> set cs"
    and "recv_loop env cs b w = Some (Inr (b', w'))"
  shows "datalen b' < bufsize b' \<and> length (recvbuf b') = bufsize b'
     \<and> take (datalen b') (recvbuf b') = after_last_newline (concat cs)
     \<and> datalen b' = length (after_last_newline (concat cs))
     \<and> upto_last_newline (concat cs) @ take (datalen b') (recvbuf b') = concat cs
     \<and> newline \<notin> set (take (datalen b') (recvbuf b'))"
proof -
  have p: "pending b = []" using assms(2) by (simp add: pending_def)
  then have nn: "newline \<notin> set (pending b)" by simp
  from recv_loop_inv [OF assms(1) nn assms(4)]
  have inv: "buf_ok b'" "newline \<notin> set (pending b')" by auto
  from recv_loop_abs [OF assms(1) nn, of env cs w] assms(4) p
  have "recv_loop_spec env cs ([], bufsize b) w = Some (Inr ((pending b', bufsize b'), w'))"
    by (simp add: abs_result_def abs_buf_def)
  from recv_loop_spec_Inr [OF assms(3) this]
  have res: "pending b' = after_last_newline (concat cs)" by (simp add: residue_after)
  have "upto_last_newline (concat cs) @ after_last_newline (concat cs) = concat cs"
    using concat_packets_residue [of "[]" "concat cs"] by (simp add: packets_upto residue_after)
  with inv res length_pending [OF inv(1)] show ?thesis
    by (simp add: buf_ok_def pending_def)
qed

theorem buffer_invariant_witness:
  "\<exists>b' w'. recv_loop ok_env [''ab'', ''c\<newline>d\<newline>e'', ''f'']
               \<lparr>recvbuf = replicate 1024 (CHR ''z''), bufsize = 1024, datalen = 0\<rparr> fresh
             = Some (Inr (b', w'))
     \<and> datalen b' < bufsize b' \<and> length (recvbuf b') = bufsize b'
     \<and> take (datalen b') (recvbuf b') = ''ef'' \<and> datalen b' = 2"
proof -
  let ?b = "\<lparr>recvbuf = replicate 1024 (CHR ''z''), bufsize = 1024, datalen = 0\<rparr>"
  let ?cs = "[''ab'', ''c\<newline>d\<newline>e'', ''f'']"
  have h1: "buf_ok ?b" by (simp add: buf_ok_def)
  have h2: "datalen ?b = 0" by simp
  have h3: "[] \<notin> set ?cs" by simp
  have na: "no_abort ok_env" by (simp add: no_abort_def ok_env_def)
  have nn: "newline \<notin> set (pending ?b)" by (simp add: pending_def)
  from recv_loop_ok [OF na h3 h1 nn, of fresh] obtain b' w' where
    r: "recv_loop ok_env ?cs ?b fresh = Some (Inr (b', w'))" by blast
  have v: "after_last_newline (concat ?cs) = ''ef''"
    by (simp add: after_last_newline_def newline_def)
  note bi = buffer_invariant [OF h1 h2 h3 r, unfolded v]
  have "datalen b' < bufsize b'" "length (recvbuf b') = bufsize b'"
    "take (datalen b') (recvbuf b') = ''ef''"
    using bi by blast+
  moreover have "datalen b' = 2" using bi by simp
  ultimately show ?thesis using r by blast
qed

text \<open>
  C9. A chunk without a delimiter, taken into a buffer in order that holds no delimiter
  (as every buffer between two chunks is, by C8): the file is not changed and nothing is
  sent. When the chunk fits or \<^verbatim>\<open>realloc\<close> succeeds, the only effect is that the chunk
  is added behind the pending bytes of the buffer; the other case is the failure of
  \<^verbatim>\<open>realloc\<close> of C7.
\<close>
theorem chunk_without_newline_only_buffers:
  assumes "buf_ok b" and "newline \<notin> set (take (datalen b) (recvbuf b))"
    and "newline \<notin> set temp"
  shows "\<exists>r. ingest env temp b w = Some r \<and>
     (case r of
        Inl w' \<Rightarrow> \<not> realloc_ok env (tick w) \<and> bufsize b \<le> datalen b + length temp
                 \<and> store w' = store w
                 \<and> trace w' = trace w @ [Syslog_err ''realloc failed'',
                                          Free_recvbuf, Fclose_fp, Close_clientfd]
      | Inr (b', w') \<Rightarrow> store w' = store w \<and> trace w' = trace w
                 \<and> take (datalen b') (recvbuf b') = take (datalen b) (recvbuf b) @ temp
                 \<and> datalen b' = datalen b + length temp
                 \<and> buf_ok b')"
proof (cases "temp = []")
  case True
  then show ?thesis using assms(1) by (simp add: ingest_Nil)
next
  case ne: False
  have nn: "newline \<notin> set (pending b)" using assms(2) by (simp add: pending_def)
  have "0 < bufsize b" using assms(1) by (simp add: buf_ok_def)
  from resize_total [OF this, of env "length temp" w]
  obtain rs where rs: "resize env (length temp) b w = Some rs" by auto
  show ?thesis
  proof (cases rs)
    case (Inl w')
    with rs have "ingest env temp b w = Some (Inl w')" by (simp add: ingest_once [OF ne])
    with resize_Inl [of env "length temp" b w w'] rs Inl show ?thesis by simp
  next
    case (Inr bw)
    obtain b1 w1 where bw: "bw = (b1, w1)" by (cases bw)
    with rs Inr have r1: "resize env (length temp) b w = Some (Inr (b1, w1))" by simp
    have pk: "packets (pending b) temp = []" using assms(3) by (rule packets_no_newline)
    have rd: "residue (pending b) temp = pending b @ temp"
      using assms(3) by (rule residue_no_newline_eq)
    from ingest_step [OF assms(1) nn ne r1] pk obtain b' where
      i: "ingest env temp b w = Some (Inr (b', w1))" "pending b' = residue (pending b) temp"
        "buf_ok b'"
      by (auto split: option.splits sum.splits)
    from length_pending [OF i(3)] length_pending [OF assms(1)] i(2) rd
    have "datalen b' = datalen b + length temp" by simp
    with i rd resize_world [OF r1] show ?thesis by (simp add: pending_def)
  qed
qed

theorem chunk_without_newline_only_buffers_witness:
  "\<exists>b' w'. ingest ok_env ''cd''
        \<lparr>recvbuf = ''ab'' @ replicate 1022 (CHR ''z''), bufsize = 1024, datalen = 2\<rparr>
        \<lparr>store = ''old\<newline>'', trace = [], tick = 5\<rparr> = Some (Inr (b', w'))
     \<and> store w' = ''old\<newline>'' \<and> trace w' = []
     \<and> take (datalen b') (recvbuf b') = ''abcd'' \<and> datalen b' = 4"
proof -
  let ?b = "\<lparr>recvbuf = ''ab'' @ replicate 1022 (CHR ''z''), bufsize = 1024, datalen = 2\<rparr>"
  let ?w = "\<lparr>store = ''old\<newline>'', trace = [], tick = 5\<rparr>"
  have h: "buf_ok ?b" "newline \<notin> set (take (datalen ?b) (recvbuf ?b))" "newline \<notin> set ''cd''"
    by (simp_all add: buf_ok_def newline_def)
  from chunk_without_newline_only_buffers [OF h, of ok_env ?w]
  obtain r where r: "ingest ok_env ''cd'' ?b ?w = Some r"
    and c: "case r of
        Inl w' \<Rightarrow> \<not> realloc_ok ok_env (tick ?w) \<and> bufsize ?b \<le> datalen ?b + length ''cd''
                 \<and> store w' = store ?w
                 \<and> trace w' = trace ?w @ [Syslog_err ''realloc failed'',
                                          Free_recvbuf, Fclose_fp, Close_clientfd]
      | Inr (b', w') \<Rightarrow> store w' = store ?w \<and> trace w' = trace ?w
                 \<and> take (datalen b') (recvbuf b') = take (datalen ?b) (recvbuf ?b) @ ''cd''
                 \<and> datalen b' = datalen ?b + length ''cd''
                 \<and> buf_ok b'"
    by blast
  show ?thesis
  proof (cases r)
    case (Inl w')
    with c show ?thesis by (simp add: ok_env_def)
  next
    case (Inr bw)
    obtain b' w' where bw: "bw = (b', w')" by (cases bw)
    from c Inr bw have c': "store w' = store ?w \<and> trace w' = trace ?w
                 \<and> take (datalen b') (recvbuf b') = take (datalen ?b) (recvbuf ?b) @ ''cd''
                 \<and> datalen b' = datalen ?b + length ''cd''"
      by auto
    have "store w' = ''old\<newline>''" "trace w' = []" "datalen b' = 4"
      using c' by simp_all
    moreover have "take (datalen b') (recvbuf b') = ''abcd''"
    proof -
      from c' have "take (datalen b') (recvbuf b') = take (datalen ?b) (recvbuf ?b) @ ''cd''"
        by blast
      also have "\<dots> = ''abcd''" by simp
      finally show ?thesis .
    qed
    ultimately show ?thesis using r Inr bw by blast
  qed
qed

section \<open>A delimiter alone\<close>

text \<open>
  C10. A delimiter that comes at a cut point of the stream (at its start, or right after
  another delimiter: the bytes \<open>s\<close> before it leave no residue) is a packet of one byte:
  in a run without failures the handler appends \<^verbatim>\<open>"\n"\<close> and sends the whole file, as
  for any other packet, between what it does for the packets before and after.
\<close>
theorem bare_delimiter_is_a_packet:
  assumes "starts env w" and "no_abort env" and "io_ok env" and "[] \<notin> set cs"
    and "concat cs = s @ newline # t" and "residue [] s = []"
  shows "\<exists>w'. handle_client env client_ip cs w = Some w'
     \<and> packets [] (concat cs) = packets [] s @ [newline] # packets [] t
     \<and> store w' = store w @ s @ [newline] @ concat (packets [] t)
     \<and> trace w' = trace w @ Syslog_info (''Accepted connection from '' @ client_ip)
          # ideal_events (store w) (packets [] s)
          @ Fwrite [newline] # map Sent (blocks (store w @ s @ [newline])) @ Fclose_fp2
          # ideal_events (store w @ s @ [newline]) (packets [] t)
          @ [Free_recvbuf, Fclose_fp, Close_clientfd,
             Syslog_info (''Closed connection from '' @ client_ip)]"
proof -
  have cs: "concat (packets [] s) = s"
    using concat_packets_residue [of "[]" s] assms(6) by simp
  have pk: "packets [] (concat cs) = packets [] s @ [newline] # packets [] t"
    using assms(5,6) by (simp add: packets_append)
  from handle_client_ok [OF assms(1,2,4), of client_ip] assms(3) obtain w' where
    "handle_client env client_ip cs w = Some w'"
    "store w' = store w @ concat (packets [] (concat cs))"
    "trace w' = trace w @ Syslog_info (''Accepted connection from '' @ client_ip)
                # ideal_events (store w) (packets [] (concat cs))
                @ [Free_recvbuf, Fclose_fp, Close_clientfd,
                   Syslog_info (''Closed connection from '' @ client_ip)]"
    by blast
  then show ?thesis
    unfolding pk by (simp add: ideal_events_append cs)
qed

theorem bare_delimiter_is_a_packet_witness:
  "\<exists>w'. handle_client ok_env ''10.0.0.1'' [''a\<newline>'', ''\<newline>'', ''b''] fresh = Some w'
     \<and> packets [] (concat [''a\<newline>'', ''\<newline>'', ''b'']) = [''a\<newline>'', ''\<newline>'']
     \<and> store w' = ''a\<newline>\<newline>''
     \<and> trace w' = [Syslog_info ''Accepted connection from 10.0.0.1'',
          Fwrite ''a\<newline>'', Sent ''a\<newline>'', Fclose_fp2,
          Fwrite ''\<newline>'', Sent ''a\<newline>\<newline>'', Fclose_fp2,
          Free_recvbuf, Fclose_fp, Close_clientfd,
          Syslog_info ''Closed connection from 10.0.0.1'']"
proof -
  have h: "starts ok_env fresh" "no_abort ok_env" "io_ok ok_env"
    "[] \<notin> set [''a\<newline>'', ''\<newline>'', ''b'']"
    "concat [''a\<newline>'', ''\<newline>'', ''b''] = ''a\<newline>'' @ newline # ''b''"
    "residue [] ''a\<newline>'' = []"
    by (simp_all add: starts_def no_abort_def io_ok_def ok_env_def fresh_def newline_def)
  from bare_delimiter_is_a_packet [OF h, of "''10.0.0.1''"] show ?thesis
    by (simp add: fresh_def newline_def blocks_Cons blocks_Nil)
qed


section \<open>Failure of a send (lines 211--216)\<close>

text \<open>
  C5. After a send that fails the handler should close the connection: append no further
  packet, send and receive nothing more. The code leaves only the loop that sends the file
  (\<^verbatim>\<open>break\<close>), so the scan of the buffer goes on. In the run below the client's
  one chunk holds two packets and the first call of \<^verbatim>\<open>send\<close> (tick 4) fails: the failure
  is logged, and then the second packet is appended and the whole file is sent.
\<close>

theorem send_failure_goes_on:
  "handle_client (ok_env\<lparr>send_result := (\<lambda>t n. if t = 4 then None else Some n)\<rparr>)
     ''10.0.0.1'' [''a\<newline>b\<newline>''] fresh =
   Some \<lparr>store = ''a\<newline>b\<newline>'',
         trace = [Syslog_info ''Accepted connection from 10.0.0.1'',
                  Fwrite ''a\<newline>'', Syslog_err ''Failed to send data to client'', Fclose_fp2,
                  Fwrite ''b\<newline>'', Sent ''a\<newline>b\<newline>'', Fclose_fp2,
                  Free_recvbuf, Fclose_fp, Close_clientfd,
                  Syslog_info ''Closed connection from 10.0.0.1''],
         tick = 8\<rparr>"
  by (simp add: eval_simps ok_env_def fresh_def)



section \<open>What the other server does with the same bytes\<close>

text \<open>
  The server of \<^verbatim>\<open>aesdassignment.c\<close> appends chunks, not packets, and stops reading at
  the first chunk with a newline: the same four bytes give one append and two sends of one
  line each when they come in one chunk, and one append and one send when they come in two.
  Bytes without a newline are appended as well. The statements of this theory about packets
  are about \<^verbatim>\<open>handle_client\<close> of \<^verbatim>\<open>aesdsocket.c\<close>.
\<close>

lemma main_send_file_Nil: "main_send_file [] w = w"
  by (subst main_send_file.simps) simp

lemma main_send_file_Cons:
  "main_send_file (c # s) w =
     main_send_file (drop (length (fgets 1023 (c # s))) (c # s))
       (emit [Sent (takeWhile (\<lambda>c. c \<noteq> nul) (fgets 1023 (c # s)))] w)"
  by (subst main_send_file.simps) (simp add: Let_def)

lemmas main_eval = main_connection_def strchr_newline_def main_send_file_Nil main_send_file_Cons
  emit_def newline_def nul_def fresh_def

lemma main_connection_one_chunk:
  "main_connection ''10.0.0.1'' [''a\<newline>b\<newline>''] fresh =
     \<lparr>store = ''a\<newline>b\<newline>'',
      trace = [Syslog_info ''Accepted connection from 10.0.0.1'',
               Fwrite ''a\<newline>b\<newline>'', Sent ''a\<newline>'', Sent ''b\<newline>'',
               Fclose_fp, Close_clientfd, Syslog_info ''Closed connection from 10.0.0.1''],
      tick = 0\<rparr>"
  by (simp add: main_eval)

lemma main_connection_two_chunks:
  "main_connection ''10.0.0.1'' [''a\<newline>'', ''b\<newline>''] fresh =
     \<lparr>store = ''a\<newline>'',
      trace = [Syslog_info ''Accepted connection from 10.0.0.1'',
               Fwrite ''a\<newline>'', Sent ''a\<newline>'',
               Fclose_fp, Close_clientfd, Syslog_info ''Closed connection from 10.0.0.1''],
      tick = 0\<rparr>"
  by (simp add: main_eval)

lemma main_connection_no_newline:
  "main_connection ''10.0.0.1'' [''abc''] fresh =
     \<lparr>store = ''abc'',
      trace = [Syslog_info ''Accepted connection from 10.0.0.1'', Fwrite ''abc'',
               Fclose_fp, Close_clientfd, Syslog_info ''Closed connection from 10.0.0.1''],
      tick = 0\<rparr>"
  by (simp add: main_eval)


end
